theory Spec2Isabelle
  imports Complex_Main "HOL-Library.Multiset" "HOL-Library.Word" "HOL-Library.Signed_Division"
begin

section \<open>Tenchmark: dispatch, sorting and percentile report of \<open>main.go\<close>\<close>

text \<open>
  Go's \<open>int\<close> is modelled as \<open>int\<close>. The values that flow through the dispatcher, the
  sort and the report are request counts, slice indexes and slice lengths; Go's \<open>/\<close> and
  \<open>%\<close> truncate towards zero and are written \<open>sdiv\<close> and \<open>smod\<close>. A panic of the Go
  runtime is a value of type \<open>error\<close>.
\<close>

datatype error =
    Invalid_number_of_concurrency
  | Invalid_number_of_requests
  | Index_out_of_range
  | Open_failed

subsection \<open>Workload dispatcher (\<open>main\<close>, lines 224-254)\<close>

text \<open>
  The loop \<open>for i := 0; i < *concurrency; i++\<close> starts one worker per index; the model
  returns the launched workers in index order as pairs \<open>(gid, count)\<close>. The source's
  \<open>quotient\<close> is written \<open>quot\<close>.
\<close>

function spawn :: "int \<Rightarrow> int \<Rightarrow> int \<Rightarrow> int \<Rightarrow> (int \<times> int) list" where
  "spawn concurrency quot remainder i =
     (if i < concurrency
      then (if i < remainder then (i, quot + 1) else (i, quot))
             # spawn concurrency quot remainder (i + 1)
      else [])"
  by pat_completeness auto
termination
  by (relation "measure (\<lambda>(concurrency, quot, remainder, i). nat (concurrency - i))") auto

declare spawn.simps [simp del]

definition dispatch :: "int \<Rightarrow> int \<Rightarrow> error + (int \<times> int) list" where
  "dispatch requests concurrency =
     (if concurrency \<le> 0 then Inl Invalid_number_of_concurrency
      else if requests \<le> 0 then Inl Invalid_number_of_requests
      else let quot = requests sdiv concurrency;
               remainder = requests smod concurrency
           in Inr (spawn concurrency quot remainder 0))"

subsection \<open>Case executor (\<open>call\<close>, lines 23-83)\<close>

text \<open>
  The protocol is an external collaborator. A primitive of the \<open>Protocol\<close> interface is a
  value of \<open>op\<close>; a protocol is a step function that, given a primitive and the state of
  the connection, returns the Go \<open>error\<close> (\<open>None\<close> for \<open>nil\<close>) and the next state. The
  values read by \<open>ReadMessageBegin\<close> are discarded by the source and are not modelled.
  \<open>T_CALL\<close> and the field type tags are constants of the protocol library and are kept
  symbolic.
\<close>

datatype err = Unsupport_type | Proto_error string

datatype ttype = T_I16 | T_I32 | T_I64 | T_STRING | T_STRUCT

datatype mtype = T_CALL

datatype op =
    WriteMessageBegin string mtype "32 word"
  | WriteStructBegin string
  | WriteFieldBegin string ttype "16 word"
  | WriteI16 "16 word"
  | WriteI32 "32 word"
  | WriteI64 "64 word"
  | WriteString string
  | WriteFieldStop
  | WriteStructEnd
  | WriteMessageEnd
  | Flush
  | ReadMessageBegin
  | Skip ttype
  | ReadMessageEnd

type_synonym 's action = "'s \<Rightarrow> err option \<times> 's"

type_synonym 's protocol = "op \<Rightarrow> 's action"

text \<open>
  An argument is a Go \<open>interface{}\<close>: one of the four dynamic types of the type switch, or
  any other dynamic type (named by \<open>Arg_other\<close>).
\<close>

datatype arg =
    Arg_int16 "16 word"
  | Arg_int32 "32 word"
  | Arg_int64 "64 word"
  | Arg_string string
  | Arg_other string

text \<open>
  \<open>steps\<close> is the chain \<open>if err = ...; err != nil { return }\<close>: the actions run in order
  and the first error ends the chain.
\<close>

fun steps :: "'s action list \<Rightarrow> 's action" where
  "steps [] s = (None, s)"
| "steps (a # as) s =
     (case a s of
        (Some e, s') \<Rightarrow> (Some e, s')
      | (None, s') \<Rightarrow> steps as s')"

text \<open>
  One iteration of the type switch. In the four supported cases \<open>err\<close> is assigned twice,
  so the result of \<open>WriteFieldBegin\<close> is overwritten by the result of the value write.
\<close>

fun write_field :: "'s protocol \<Rightarrow> arg \<Rightarrow> 16 word \<Rightarrow> 's action" where
  "write_field proto (Arg_int16 v) index s =
     (let (err, s1) = proto (WriteFieldBegin ''i16'' T_I16 index) s
      in proto (WriteI16 v) s1)"
| "write_field proto (Arg_int32 v) index s =
     (let (err, s1) = proto (WriteFieldBegin ''i32'' T_I32 index) s
      in proto (WriteI32 v) s1)"
| "write_field proto (Arg_int64 v) index s =
     (let (err, s1) = proto (WriteFieldBegin ''i64'' T_I64 index) s
      in proto (WriteI64 v) s1)"
| "write_field proto (Arg_string v) index s =
     (let (err, s1) = proto (WriteFieldBegin ''string'' T_STRING index) s
      in proto (WriteString v) s1)"
| "write_field proto (Arg_other t) index s = (Some Unsupport_type, s)"

text \<open>The loop \<open>for i, arg := range args\<close>, with \<open>index := int16(i + 1)\<close>.\<close>

fun write_args :: "'s protocol \<Rightarrow> nat \<Rightarrow> arg list \<Rightarrow> 's action" where
  "write_args proto i [] s = (None, s)"
| "write_args proto i (arg # args) s =
     (case write_field proto arg (of_nat (i + 1)) s of
        (Some e, s') \<Rightarrow> (Some e, s')
      | (None, s') \<Rightarrow> write_args proto (i + 1) args s')"

definition writeMessageBody :: "arg list \<Rightarrow> 's protocol \<Rightarrow> 's action" where
  "writeMessageBody args proto =
     steps [proto (WriteStructBegin ''whatever''),
            write_args proto 0 args,
            proto WriteFieldStop,
            proto WriteStructEnd,
            proto WriteMessageEnd,
            proto Flush]"

definition call :: "string \<Rightarrow> arg list \<Rightarrow> 's protocol \<Rightarrow> 's action" where
  "call name args proto =
     steps [proto (WriteMessageBegin name T_CALL 0),
            writeMessageBody args proto,
            proto ReadMessageBegin,
            proto (Skip T_STRUCT),
            proto ReadMessageEnd]"

text \<open>
  A protocol that also records every primitive invoked on it, in order. It behaves as the
  protocol it wraps.
\<close>

definition logged :: "'s protocol \<Rightarrow> ('s \<times> op list) protocol" where
  "logged proto p = (\<lambda>(s, tr). case proto p s of (e, s') \<Rightarrow> (e, (s', tr @ [p])))"

text \<open>A protocol whose primitives all succeed (for instance, writes into a large buffer).\<close>

definition accepting :: "unit protocol" where
  "accepting p s = (None, s)"

text \<open>A protocol on which the peer has closed the connection: reading the reply fails.\<close>

definition eof_on_read :: "unit protocol" where
  "eof_on_read p s = (case p of ReadMessageBegin \<Rightarrow> (Some (Proto_error ''EOF''), s) | _ \<Rightarrow> (None, s))"

text \<open>
  The kinds the type switch handles, and the primitives the argument loop invokes for a
  list of arguments, up to the first argument of another kind.
\<close>

fun supported :: "arg \<Rightarrow> bool" where
  "supported (Arg_other t) = False"
| "supported a = True"

fun field_ops :: "nat \<Rightarrow> arg list \<Rightarrow> op list" where
  "field_ops i [] = []"
| "field_ops i (Arg_int16 v # args) =
     WriteFieldBegin ''i16'' T_I16 (of_nat (i + 1)) # WriteI16 v # field_ops (i + 1) args"
| "field_ops i (Arg_int32 v # args) =
     WriteFieldBegin ''i32'' T_I32 (of_nat (i + 1)) # WriteI32 v # field_ops (i + 1) args"
| "field_ops i (Arg_int64 v # args) =
     WriteFieldBegin ''i64'' T_I64 (of_nat (i + 1)) # WriteI64 v # field_ops (i + 1) args"
| "field_ops i (Arg_string v # args) =
     WriteFieldBegin ''string'' T_STRING (of_nat (i + 1)) # WriteString v # field_ops (i + 1) args"
| "field_ops i (Arg_other t # args) = []"

subsection \<open>Worker (\<open>process\<close>, lines 94-124)\<close>

text \<open>
  \<open>process\<close> opens its connection (a failure panics), then calls the case \<open>count\<close>
  times (written \<open>cnt\<close>) and stops at the first error. The clock is an input: \<open>elapsed i\<close> is the difference in
  nanoseconds between the two readings of \<open>time.Now().UnixNano()\<close> around call \<open>i\<close>.
  The result is the list of values sent on the channel \<open>p.ch\<close>, in order.
\<close>

function process_loop :: "'s action \<Rightarrow> (int \<Rightarrow> int) \<Rightarrow> int \<Rightarrow> int \<Rightarrow> 's \<Rightarrow> int list" where
  "process_loop fn elapsed cnt i proto =
     (if i < cnt
      then (case fn proto of
              (Some err, proto') \<Rightarrow> []
            | (None, proto') \<Rightarrow>
                (elapsed i sdiv 1000) # process_loop fn elapsed cnt (i + 1) proto')
      else [])"
  by pat_completeness auto
termination
  by (relation "measure (\<lambda>(fn, elapsed, cnt, i, proto). nat (cnt - i))") auto

declare process_loop.simps [simp del]

definition process :: "'s action \<Rightarrow> (int \<Rightarrow> int) \<Rightarrow> 's option \<Rightarrow> int \<Rightarrow> int \<Rightarrow> error + int list" where
  "process fn elapsed conn gid cnt =
     (case conn of
        None \<Rightarrow> Inl Open_failed
      | Some proto \<Rightarrow> Inr (process_loop fn elapsed cnt 0 proto))"

subsection \<open>Sorting (\<open>sort\<close>, lines 126-145)\<close>

text \<open>
  The slice is a list and an element is read with \<open>values ! nat k\<close>; the indexes are Go
  \<open>int\<close>s and may be \<open>-1\<close> (\<open>sort(s, 0, l-1)\<close> on the empty slice, \<open>sort(values, l, i-2)\<close>).
  \<open>part_loop\<close> is the loop \<open>for j := l + 1; j <= r; j++\<close>; it returns the slice and \<open>i\<close>.
\<close>

function part_loop :: "int \<Rightarrow> int \<Rightarrow> int list \<Rightarrow> int \<Rightarrow> int \<Rightarrow> int list \<times> int" where
  "part_loop pivot r values i j =
     (if j \<le> r
      then (if pivot > values ! nat j
            then part_loop pivot r
                   (values[nat i := values ! nat j, nat j := values ! nat i]) (i + 1) (j + 1)
            else part_loop pivot r values i (j + 1))
      else (values, i))"
  by pat_completeness auto
termination
  by (relation "measure (\<lambda>(pivot, r, values, i, j). nat (r + 1 - j))") auto

declare part_loop.simps [simp del]

lemma part_loop_index:
  "j \<le> r + 1 \<Longrightarrow> i \<le> snd (part_loop pivot r values i j)
     \<and> snd (part_loop pivot r values i j) - i \<le> r + 1 - j"
proof (induction pivot r "values" i j rule: part_loop.induct)
  case (1 pivot r vs i j)
  show ?case
  proof (cases "j \<le> r")
    case False
    with 1(3) show ?thesis by (subst (1 2) part_loop.simps) simp
  next
    case le: True
    show ?thesis
    proof (cases "pivot > vs ! nat j")
      case True
      with le 1(1) show ?thesis by (subst (1 2) part_loop.simps) fastforce
    next
      case False
      with le 1(2) show ?thesis by (subst (1 2) part_loop.simps) fastforce
    qed
  qed
qed

text \<open>
  \<open>sort\<close> of the source is \<open>sort_slice\<close>. With \<open>l < r\<close>, the read \<open>values[l]\<close> panics when
  \<open>l\<close> is out of range, and the loop reaches \<open>values[j]\<close> with \<open>j = len(values)\<close> and
  panics when \<open>r\<close> is: both are the second branch. Inside that guard every index the
  loop and the final swap use lies in \<open>[l, r]\<close>. The recursion is on the width \<open>r - l\<close>.
\<close>

function sort_slice :: "int list \<Rightarrow> int \<Rightarrow> int \<Rightarrow> error + int list" where
  "sort_slice values l r =
     (if l \<ge> r then Inr values
      else if l < 0 \<or> int (length values) \<le> r then Inl Index_out_of_range
      else let pivot = values ! nat l;
               (values1, i) = part_loop pivot r values (l + 1) (l + 1);
               values2 = values1[nat l := values1 ! nat (i - 1), nat (i - 1) := pivot]
           in case sort_slice values2 l (i - 2) of
                Inl e \<Rightarrow> Inl e
              | Inr values3 \<Rightarrow> sort_slice values3 i r)"
  by pat_completeness auto
termination
proof (relation "measure (\<lambda>(values, l, r). nat (r - l))", goal_cases)
  case 1
  show ?case by simp
next
  case (2 vs l r pivot p vs1 i vs2)
  from 2 have "i = snd (part_loop (vs ! nat l) r vs (l + 1) (l + 1))"
    by (metis snd_conv)
  with 2 part_loop_index [of "l + 1" r "l + 1" "vs ! nat l" vs] show ?case
    by simp
next
  case (3 vs l r pivot p vs1 i vs2 vs3)
  from 3 have "i = snd (part_loop (vs ! nat l) r vs (l + 1) (l + 1))"
    by (metis snd_conv)
  with 3 part_loop_index [of "l + 1" r "l + 1" "vs ! nat l" vs] show ?case
    by simp
qed

declare sort_slice.simps [simp del]

subsection \<open>Report (\<open>collect\<close>, lines 147-193)\<close>

text \<open>
  Reading \<open>s[k]\<close> panics outside \<open>0 \<le> k < len(s)\<close>.
\<close>

definition slice_at :: "int list \<Rightarrow> int \<Rightarrow> error + int" where
  "slice_at s k = (if 0 \<le> k \<and> k < int (length s) then Inr (s ! nat k) else Inl Index_out_of_range)"

text \<open>
  The closure \<open>v\<close> of \<open>collect\<close>, over the sorted slice \<open>s\<close> and \<open>l = len(s)\<close>. The
  conversion \<open>float64(s[k]) / 1000\<close> is taken exactly, as a real number: the sample in
  microseconds divided by 1000. With at most \<open>2 ^ 56\<close> samples and a denominator of at
  most 100 the product \<open>l * (denominator - 1)\<close> stays below \<open>2 ^ 63\<close> (lemma
  \<open>cut_product_in_range\<close>), so it is the mathematical product.
\<close>

definition collect_v :: "int list \<Rightarrow> int \<Rightarrow> error + real" where
  "collect_v s denominator =
     (let l = int (length s)
      in if denominator \<le> 0
         then map_sum id (\<lambda>x. real_of_int x / 1000) (slice_at s (l - 1))
         else map_sum id (\<lambda>x. real_of_int x / 1000)
                (slice_at s (l * (denominator - 1) sdiv denominator - 1)))"

text \<open>
  A line sent on \<open>pipe\<close>. The text formatting of \<open>Sprintf\<close> is not modelled: a line keeps
  the label and the numbers it prints. \<open>Time_taken\<close> keeps \<open>dnano\<close>, and
  \<open>Request_per_second\<close> keeps \<open>l\<close> and \<open>dnano\<close>, the operands of the floating-point
  quotient \<open>qps\<close> (a floating-point division does not panic).
\<close>

datatype line =
    Server_Address string
  | Blank
  | Concurrency_level int
  | Time_taken int
  | Complete_requests int
  | Failed_requests int
  | Request_per_second int int
  | Heading
  | Percent int real
  | Longest int real

text \<open>
  The label and the denominator of the eight sends of lines 184-191, in order. Line 192
  prints label 100 with \<open>v(-1)\<close>.
\<close>

definition percentiles :: "(int \<times> int) list" where
  "percentiles = [(50, 2), (66, 3), (75, 4), (80, 5), (90, 10), (95, 20), (98, 50), (99, 100)]"

text \<open>
  \<open>send\<close> is \<open>pipe <- x\<close>: the operand is evaluated first, and a panic there ends the
  function with the lines sent so far.
\<close>

definition send :: "line list \<times> error option \<Rightarrow> error + line \<Rightarrow> line list \<times> error option" where
  "send st x =
     (case st of
        (out, Some e) \<Rightarrow> (out, Some e)
      | (out, None) \<Rightarrow> (case x of Inl e \<Rightarrow> (out, Some e) | Inr msg \<Rightarrow> (out @ [msg], None)))"

definition collect :: "string \<Rightarrow> int \<Rightarrow> int \<Rightarrow> int \<Rightarrow> int list \<Rightarrow> line list \<times> error option" where
  "collect addr concurrency requests dnano samples =
     (let l = int (length samples)
      in case sort_slice samples 0 (l - 1) of
           Inl e \<Rightarrow> ([], Some e)
         | Inr s \<Rightarrow>
             foldl send ([], None)
               ([Inr (Server_Address addr),
                 Inr Blank,
                 Inr (Concurrency_level concurrency),
                 Inr (Time_taken dnano),
                 Inr (Complete_requests l),
                 Inr (Failed_requests (requests - l)),
                 Inr (Request_per_second l dnano),
                 Inr Blank,
                 Inr Heading]
                @ map (\<lambda>(p, d). map_sum id (Percent p) (collect_v s d)) percentiles
                @ [map_sum id (Longest 100) (collect_v s (- 1))]))"

subsection \<open>The run (\<open>main\<close>, lines 220-262)\<close>

text \<open>
  The environment of a run: the connection each worker obtains (\<open>None\<close> when
  \<open>trans.Open\<close> fails) and its clock readings. The workers run concurrently; the model
  runs them in index order, which is one of the possible schedules. When at most one
  sample is sent in the whole run, every schedule puts the same values on the channel.
\<close>

fun run_workers ::
  "'s action \<Rightarrow> (int \<Rightarrow> int \<Rightarrow> int) \<Rightarrow> (int \<Rightarrow> 's option) \<Rightarrow> (int \<times> int) list \<Rightarrow> error + int list"
where
  "run_workers fn elapsed conn [] = Inr []"
| "run_workers fn elapsed conn ((gid, cnt) # ws) =
     (case process fn (elapsed gid) (conn gid) gid cnt of
        Inl e \<Rightarrow> Inl e
      | Inr sent \<Rightarrow>
          (case run_workers fn elapsed conn ws of
             Inl e \<Rightarrow> Inl e
           | Inr rest \<Rightarrow> Inr (sent @ rest)))"

definition main ::
  "string \<Rightarrow> int \<Rightarrow> int \<Rightarrow> 's action \<Rightarrow> (int \<Rightarrow> int \<Rightarrow> int) \<Rightarrow> (int \<Rightarrow> 's option) \<Rightarrow> int
     \<Rightarrow> line list \<times> error option"
where
  "main addr requests concurrency fn elapsed conn dnano =
     (case dispatch requests concurrency of
        Inl e \<Rightarrow> ([], Some e)
      | Inr ws \<Rightarrow>
          (case run_workers fn elapsed conn ws of
             Inl e \<Rightarrow> ([], Some e)
           | Inr samples \<Rightarrow> collect addr concurrency requests dnano samples))"

section \<open>Properties\<close>

subsection \<open>Truncating division on non-negative operands\<close>

lemma sdiv_nonneg: "0 \<le> (a::int) \<Longrightarrow> 0 < b \<Longrightarrow> a sdiv b = a div b"
  by (simp add: signed_divide_int_def sgn_if)

lemma smod_nonneg: "0 \<le> (a::int) \<Longrightarrow> 0 < b \<Longrightarrow> a smod b = a mod b"
  by (simp add: signed_modulo_int_def sgn_if)

subsection \<open>Dispatcher\<close>

lemma spawn_length:
  "i \<le> c \<Longrightarrow> length (spawn c q m i) = nat (c - i)"
proof (induction c q m i rule: spawn.induct)
  case (1 c q m i)
  show ?case
  proof (cases "i < c")
    case True
    with 1 have "length (spawn c q m (i + 1)) = nat (c - (i + 1))" by simp
    with True show ?thesis by (subst spawn.simps) (simp add: nat_diff_distrib)
  next
    case False
    with 1 show ?thesis by (subst spawn.simps) simp
  qed
qed

lemma spawn_nth:
  "k < nat (c - i) \<Longrightarrow>
   spawn c q m i ! k = (i + int k, if i + int k < m then q + 1 else q)"
proof (induction c q m i arbitrary: k rule: spawn.induct)
  case (1 c q m i)
  from 1(2) have lt: "i < c" by simp
  show ?case
  proof (cases k)
    case 0
    with lt show ?thesis by (subst spawn.simps) simp
  next
    case (Suc k')
    with 1(2) have "k' < nat (c - (i + 1))" by simp
    with 1(1) lt have "spawn c q m (i + 1) ! k' =
        (i + 1 + int k', if i + 1 + int k' < m then q + 1 else q)" by simp
    with lt Suc show ?thesis by (subst spawn.simps) (simp add: add.assoc)
  qed
qed

lemma spawn_sum:
  "i \<le> c \<Longrightarrow>
   sum_list (map snd (spawn c q m i)) = (c - i) * q + (max 0 (min c m - i))"
proof (induction c q m i rule: spawn.induct)
  case (1 c q m i)
  show ?case
  proof (cases "i < c")
    case True
    with 1 have "sum_list (map snd (spawn c q m (i + 1)))
        = (c - (i + 1)) * q + max 0 (min c m - (i + 1))" by simp
    with True show ?thesis
      by (subst spawn.simps) (auto simp: algebra_simps max_def min_def)
  next
    case False
    with 1 show ?thesis by (subst spawn.simps) simp
  qed
qed

lemma spawn_set:
  "p \<in> set (spawn c q m i) \<Longrightarrow> snd p = q \<or> snd p = q + 1"
proof (induction c q m i rule: spawn.induct)
  case (1 c q m i)
  from 1(2) show ?case
    by (subst (asm) spawn.simps) (auto split: if_splits dest: 1(1))
qed

text \<open>
  C1. For every request count \<open>R > 0\<close> and concurrency \<open>C > 0\<close> the dispatcher launches
  \<open>C\<close> workers, worker \<open>k\<close> with gid \<open>k\<close>; each of the first \<open>R mod C\<close> workers gets
  \<open>R div C + 1\<close> requests and every other worker \<open>R div C\<close>; the counts are non-negative,
  sum to \<open>R\<close>, and any two differ by at most 1.
\<close>

theorem dispatch_partition:
  assumes "0 < R" and "0 < C"
  shows "\<exists>ws. dispatch R C = Inr ws
           \<and> length ws = nat C
           \<and> (\<forall>k < nat C. ws ! k = (int k, if int k < R mod C then R div C + 1 else R div C))
           \<and> (\<forall>w \<in> set ws. 0 \<le> snd w)
           \<and> sum_list (map snd ws) = R
           \<and> (\<forall>a \<in> set ws. \<forall>b \<in> set ws. \<bar>snd a - snd b\<bar> \<le> 1)"
proof -
  from assms have q: "R sdiv C = R div C" and m: "R smod C = R mod C"
    by (simp_all add: sdiv_nonneg smod_nonneg)
  let ?ws = "spawn C (R div C) (R mod C) 0"
  from assms have d: "dispatch R C = Inr ?ws"
    by (simp add: dispatch_def q m)
  from assms have len: "length ?ws = nat C"
    using spawn_length [of 0 C] by simp
  have nth: "\<forall>k < nat C. ?ws ! k = (int k, if int k < R mod C then R div C + 1 else R div C)"
    using spawn_nth [of _ C 0 "R div C" "R mod C"] by simp
  from assms have q0: "0 \<le> R div C"
    by (simp add: pos_imp_zdiv_nonneg_iff)
  have nonneg: "\<forall>w \<in> set ?ws. 0 \<le> snd w"
    using spawn_set [of _ C "R div C" "R mod C" 0] q0 by fastforce
  from assms have m0: "0 \<le> R mod C" and mC: "R mod C < C"
    by simp_all
  then have "max 0 (min C (R mod C) - 0) = R mod C"
    by simp
  with assms have total: "sum_list (map snd ?ws) = R"
    using spawn_sum [of 0 C "R div C" "R mod C"] by (simp add: mult.commute)
  have close: "\<forall>a \<in> set ?ws. \<forall>b \<in> set ?ws. \<bar>snd a - snd b\<bar> \<le> 1"
  proof (intro ballI)
    fix a b assume "a \<in> set ?ws" and "b \<in> set ?ws"
    then have "snd a = R div C \<or> snd a = R div C + 1"
      and "snd b = R div C \<or> snd b = R div C + 1"
      by (auto dest: spawn_set)
    then show "\<bar>snd a - snd b\<bar> \<le> 1" by auto
  qed
  from d len nth nonneg total close show ?thesis by blast
qed

theorem dispatch_partition_witness:
  "(0::int) < 7 \<and> (0::int) < 3
   \<and> dispatch 7 3 = Inr [(0, 3), (1, 2), (2, 2)]
   \<and> sum_list (map snd [(0::int, 3::int), (1, 2), (2, 2)]) = 7"
proof -
  have r: "(0::int) < 7" and c: "(0::int) < 3" by simp_all
  from dispatch_partition [OF r c] obtain ws where
    d: "dispatch 7 3 = Inr ws" and len: "length ws = nat 3"
    and nth: "\<forall>k < nat 3. ws ! k = (int k, if int k < 7 mod 3 then 7 div 3 + 1 else 7 div 3)"
    by blast
  from len have l3: "length ws = 3" by simp
  from nth have "ws ! 0 = (0, 3)" and "ws ! 1 = (1, 2)" and "ws ! 2 = (2, 2)"
    by simp_all
  with l3 have "ws = [(0, 3), (1, 2), (2, 2)]"
    by (auto simp: list_eq_iff_nth_eq less_Suc_eq eval_nat_numeral)
  with d show ?thesis by simp
qed

subsection \<open>Sorting\<close>

lemma swap_nth:
  assumes "0 \<le> i" "0 \<le> j" "0 \<le> k" "i < int (length vs)" "j < int (length vs)"
  shows "vs[nat i := vs ! nat j, nat j := vs ! nat i] ! nat k
           = (if k = j then vs ! nat i else if k = i then vs ! nat j else vs ! nat k)"
  using assms by (auto simp: nth_list_update nat_eq_iff)

lemma swap_mset:
  assumes "0 \<le> i" "0 \<le> j" "i < int (length vs)" "j < int (length vs)"
  shows "mset (vs[nat i := vs ! nat j, nat j := vs ! nat i]) = mset vs"
  using assms by (simp add: mset_swap)

lemma part_loop_spec:
  assumes "0 \<le> l" "l < i" "i \<le> j" "j \<le> r + 1" "r < int (length vs)"
    and "\<forall>k. l < k \<and> k < i \<longrightarrow> vs ! nat k < pivot"
    and "\<forall>k. i \<le> k \<and> k < j \<longrightarrow> pivot \<le> vs ! nat k"
  shows "\<exists>vs' i'. part_loop pivot r vs i j = (vs', i')
           \<and> length vs' = length vs \<and> mset vs' = mset vs
           \<and> (\<forall>k. 0 \<le> k \<and> (k < i \<or> r < k) \<longrightarrow> vs' ! nat k = vs ! nat k)
           \<and> (\<forall>k. l < k \<and> k < i' \<longrightarrow> vs' ! nat k < pivot)
           \<and> (\<forall>k. i' \<le> k \<and> k \<le> r \<longrightarrow> pivot \<le> vs' ! nat k)
           \<and> (\<forall>k. i \<le> k \<and> k \<le> r \<longrightarrow> (\<exists>k'. i \<le> k' \<and> k' \<le> r \<and> vs' ! nat k = vs ! nat k'))"
  using assms
proof (induction pivot r vs i j rule: part_loop.induct)
  case (1 pivot r vs i j)
  show ?case
  proof (cases "j \<le> r")
    case False
    with 1(6) have jr: "j = r + 1" by simp
    have "part_loop pivot r vs i j = (vs, i)"
      using False by (subst part_loop.simps) simp
    with 1(8,9) jr show ?thesis by auto
  next
    case le: True
    show ?thesis
    proof (cases "pivot > vs ! nat j")
      case False
      have eq: "part_loop pivot r vs i j = part_loop pivot r vs i (j + 1)"
        using le False by (subst part_loop.simps) simp
      have "\<forall>k. i \<le> k \<and> k < j + 1 \<longrightarrow> pivot \<le> vs ! nat k"
      proof (intro allI impI)
        fix k assume "i \<le> k \<and> k < j + 1"
        then have "k < j \<or> k = j" by auto
        with \<open>i \<le> k \<and> k < j + 1\<close> 1(9) False show "pivot \<le> vs ! nat k" by auto
      qed
      with 1(2) [OF le False 1(3) 1(4)] 1(5,6,7,8) le eq show ?thesis
        by simp
    next
      case True
      let ?vs1 = "vs[nat i := vs ! nat j, nat j := vs ! nat i]"
      have eq: "part_loop pivot r vs i j = part_loop pivot r ?vs1 (i + 1) (j + 1)"
        using le True by (subst part_loop.simps) simp
      from 1(3,4,5) le 1(7) have b: "0 \<le> i" "0 \<le> j" "i < int (length vs)" "j < int (length vs)"
        by auto
      note nth1 = swap_nth [OF b(1) b(2) _ b(3) b(4)]
      have len1: "length ?vs1 = length vs" by simp
      have ms1: "mset ?vs1 = mset vs" using b by (rule swap_mset)
      have lo: "\<forall>k. l < k \<and> k < i + 1 \<longrightarrow> ?vs1 ! nat k < pivot"
      proof (intro allI impI)
        fix k assume k: "l < k \<and> k < i + 1"
        with 1(3) have k0: "0 \<le> k" by simp
        from k 1(5) 1(8) True show "?vs1 ! nat k < pivot"
          by (auto simp: nth1 [OF k0])
      qed
      have hi: "\<forall>k. i + 1 \<le> k \<and> k < j + 1 \<longrightarrow> pivot \<le> ?vs1 ! nat k"
      proof (intro allI impI)
        fix k assume k: "i + 1 \<le> k \<and> k < j + 1"
        with b have k0: "0 \<le> k" by simp
        from k 1(5) 1(9) show "pivot \<le> ?vs1 ! nat k"
          by (auto simp: nth1 [OF k0])
      qed
      from 1(1) [OF le True 1(3) _ _ _ _ lo hi] 1(4,5,6,7) le len1
      obtain vs' i' where res: "part_loop pivot r ?vs1 (i + 1) (j + 1) = (vs', i')"
        and A: "length vs' = length vs" "mset vs' = mset ?vs1"
        and B: "\<forall>k. 0 \<le> k \<and> (k < i + 1 \<or> r < k) \<longrightarrow> vs' ! nat k = ?vs1 ! nat k"
        and C: "\<forall>k. l < k \<and> k < i' \<longrightarrow> vs' ! nat k < pivot"
        and D: "\<forall>k. i' \<le> k \<and> k \<le> r \<longrightarrow> pivot \<le> vs' ! nat k"
        and E: "\<forall>k. i + 1 \<le> k \<and> k \<le> r \<longrightarrow>
                   (\<exists>k'. i + 1 \<le> k' \<and> k' \<le> r \<and> vs' ! nat k = ?vs1 ! nat k')"
        by auto
      have B': "\<forall>k. 0 \<le> k \<and> (k < i \<or> r < k) \<longrightarrow> vs' ! nat k = vs ! nat k"
      proof (intro allI impI)
        fix k assume k: "0 \<le> k \<and> (k < i \<or> r < k)"
        then have "vs' ! nat k = ?vs1 ! nat k" using B by auto
        also from k 1(5) le have "\<dots> = vs ! nat k" by (auto simp: nth1)
        finally show "vs' ! nat k = vs ! nat k" .
      qed
      have E': "\<forall>k. i \<le> k \<and> k \<le> r \<longrightarrow> (\<exists>k'. i \<le> k' \<and> k' \<le> r \<and> vs' ! nat k = vs ! nat k')"
      proof (intro allI impI)
        fix k assume k: "i \<le> k \<and> k \<le> r"
        have src: "\<And>m. i \<le> m \<and> m \<le> r \<Longrightarrow> \<exists>k'. i \<le> k' \<and> k' \<le> r \<and> ?vs1 ! nat m = vs ! nat k'"
        proof -
          fix m assume m: "i \<le> m \<and> m \<le> r"
          with b have m0: "0 \<le> m" by simp
          from m 1(5) le show "\<exists>k'. i \<le> k' \<and> k' \<le> r \<and> ?vs1 ! nat m = vs ! nat k'"
            by (auto simp: nth1 [OF m0])
        qed
        show "\<exists>k'. i \<le> k' \<and> k' \<le> r \<and> vs' ! nat k = vs ! nat k'"
        proof (cases "k = i")
          case True
          with b B have "vs' ! nat k = ?vs1 ! nat k" by auto
          with src [of k] k show ?thesis by auto
        next
          case False
          with k have "i + 1 \<le> k \<and> k \<le> r" by simp
          then have "\<exists>k'. i + 1 \<le> k' \<and> k' \<le> r \<and> vs' ! nat k = ?vs1 ! nat k'"
            by (rule E [rule_format])
          then obtain m where m: "i + 1 \<le> m" "m \<le> r" "vs' ! nat k = ?vs1 ! nat m"
            by blast
          with src [of m] show ?thesis by auto
        qed
      qed
      from res eq A ms1 B' C D E' show ?thesis by auto
    qed
  qed
qed


lemma sort_slice_spec:
  "r \<le> l \<or> (0 \<le> l \<and> r < int (length vs)) \<Longrightarrow>
   \<exists>vs'. sort_slice vs l r = Inr vs'
     \<and> length vs' = length vs \<and> mset vs' = mset vs
     \<and> (\<forall>k. 0 \<le> k \<and> (k < l \<or> r < k) \<longrightarrow> vs' ! nat k = vs ! nat k)
     \<and> (\<forall>a b. l \<le> a \<and> a \<le> b \<and> b \<le> r \<longrightarrow> vs' ! nat a \<le> vs' ! nat b)
     \<and> (\<forall>k. l \<le> k \<and> k \<le> r \<longrightarrow> (\<exists>k'. l \<le> k' \<and> k' \<le> r \<and> vs' ! nat k = vs ! nat k'))"
proof (induction vs l r rule: sort_slice.induct)
  case (1 vs l r)
  show ?case
  proof (cases "r \<le> l")
    case True
    then have "sort_slice vs l r = Inr vs" by (subst sort_slice.simps) simp
    moreover have "\<forall>a b. l \<le> a \<and> a \<le> b \<and> b \<le> r \<longrightarrow> vs ! nat a \<le> vs ! nat b"
    proof (intro allI impI)
      fix a b :: int assume "l \<le> a \<and> a \<le> b \<and> b \<le> r"
      with True have "a = b" by simp
      then show "vs ! nat a \<le> vs ! nat b" by simp
    qed
    ultimately show ?thesis by auto
  next
    case False
    with 1(3) have l0: "0 \<le> l" and rlen: "r < int (length vs)" and lr: "l < r"
      by auto
    define pivot where "pivot = vs ! nat l"
    have "\<exists>vs1 i. part_loop pivot r vs (l + 1) (l + 1) = (vs1, i)
           \<and> length vs1 = length vs \<and> mset vs1 = mset vs
           \<and> (\<forall>k. 0 \<le> k \<and> (k < l + 1 \<or> r < k) \<longrightarrow> vs1 ! nat k = vs ! nat k)
           \<and> (\<forall>k. l < k \<and> k < i \<longrightarrow> vs1 ! nat k < pivot)
           \<and> (\<forall>k. i \<le> k \<and> k \<le> r \<longrightarrow> pivot \<le> vs1 ! nat k)
           \<and> (\<forall>k. l + 1 \<le> k \<and> k \<le> r \<longrightarrow>
                 (\<exists>k'. l + 1 \<le> k' \<and> k' \<le> r \<and> vs1 ! nat k = vs ! nat k'))"
      using l0 lr rlen by (intro part_loop_spec) auto
    then obtain vs1 i where pl: "part_loop pivot r vs (l + 1) (l + 1) = (vs1, i)"
      and len1: "length vs1 = length vs" and ms1: "mset vs1 = mset vs"
      and out1: "\<forall>k. 0 \<le> k \<and> (k < l + 1 \<or> r < k) \<longrightarrow> vs1 ! nat k = vs ! nat k"
      and lo1: "\<forall>k. l < k \<and> k < i \<longrightarrow> vs1 ! nat k < pivot"
      and hi1: "\<forall>k. i \<le> k \<and> k \<le> r \<longrightarrow> pivot \<le> vs1 ! nat k"
      and seg1: "\<forall>k. l + 1 \<le> k \<and> k \<le> r \<longrightarrow>
                 (\<exists>k'. l + 1 \<le> k' \<and> k' \<le> r \<and> vs1 ! nat k = vs ! nat k')"
      by blast
    from part_loop_index [of "l + 1" r "l + 1" pivot vs] pl lr
    have il: "l + 1 \<le> i" and ir: "i \<le> r + 1" by simp_all
    from out1 l0 have piv1: "vs1 ! nat l = pivot" by (simp add: pivot_def)
    define vs2 where "vs2 = vs1[nat l := vs1 ! nat (i - 1), nat (i - 1) := pivot]"
    have vs2_swap: "vs2 = vs1[nat l := vs1 ! nat (i - 1), nat (i - 1) := vs1 ! nat l]"
      by (simp add: vs2_def piv1)
    from l0 il ir rlen len1
    have b: "0 \<le> l" "0 \<le> i - 1" "l < int (length vs1)" "i - 1 < int (length vs1)"
      by simp_all
    note nth2 = swap_nth [OF b(1) b(2) _ b(3) b(4), folded vs2_swap]
    have len2: "length vs2 = length vs" by (simp add: vs2_def len1)
    have ms2: "mset vs2 = mset vs"
      using swap_mset [OF b(1) b(2) b(3) b(4)] ms1 by (simp add: vs2_swap)
    have out2: "\<forall>k. 0 \<le> k \<and> (k < l \<or> r < k) \<longrightarrow> vs2 ! nat k = vs ! nat k"
      using out1 il ir by (auto simp: nth2)
    have lo2: "\<forall>k. l \<le> k \<and> k \<le> i - 2 \<longrightarrow> vs2 ! nat k < pivot"
    proof (intro allI impI)
      fix k assume k: "l \<le> k \<and> k \<le> i - 2"
      with l0 have k0: "0 \<le> k" by simp
      from k lo1 show "vs2 ! nat k < pivot" by (auto simp: nth2 [OF k0])
    qed
    have mid2: "vs2 ! nat (i - 1) = pivot"
      using piv1 b(2) by (simp add: nth2)
    have hi2: "\<forall>k. i \<le> k \<and> k \<le> r \<longrightarrow> pivot \<le> vs2 ! nat k"
    proof (intro allI impI)
      fix k assume k: "i \<le> k \<and> k \<le> r"
      with b have k0: "0 \<le> k" by simp
      from k il hi1 show "pivot \<le> vs2 ! nat k" by (auto simp: nth2 [OF k0])
    qed
    have seg2: "\<forall>k. l \<le> k \<and> k \<le> r \<longrightarrow> (\<exists>k'. l \<le> k' \<and> k' \<le> r \<and> vs2 ! nat k = vs ! nat k')"
    proof (intro allI impI)
      fix k assume k: "l \<le> k \<and> k \<le> r"
      have src: "\<And>m. l \<le> m \<and> m \<le> r \<Longrightarrow> \<exists>k'. l \<le> k' \<and> k' \<le> r \<and> vs1 ! nat m = vs ! nat k'"
      proof -
        fix m assume m: "l \<le> m \<and> m \<le> r"
        show "\<exists>k'. l \<le> k' \<and> k' \<le> r \<and> vs1 ! nat m = vs ! nat k'"
        proof (cases "m = l")
          case True
          with out1 l0 have "vs1 ! nat m = vs ! nat l" by simp
          with lr show ?thesis by (intro exI [of _ l]) simp
        next
          case False
          with m have "l + 1 \<le> m \<and> m \<le> r" by simp
          then have "\<exists>k'. l + 1 \<le> k' \<and> k' \<le> r \<and> vs1 ! nat m = vs ! nat k'"
            by (rule seg1 [rule_format])
          then obtain k' where "l + 1 \<le> k'" "k' \<le> r" "vs1 ! nat m = vs ! nat k'" by blast
          then have "l \<le> k' \<and> k' \<le> r \<and> vs1 ! nat m = vs ! nat k'" by simp
          then show ?thesis by blast
        qed
      qed
      from k l0 have k0: "0 \<le> k" by simp
      have "vs2 ! nat k = vs1 ! nat (i - 1) \<or> vs2 ! nat k = vs1 ! nat l \<or> vs2 ! nat k = vs1 ! nat k"
        by (simp add: nth2 [OF k0])
      with src [of "i - 1"] src [of l] src [of k] k il ir lr
      show "\<exists>k'. l \<le> k' \<and> k' \<le> r \<and> vs2 ! nat k = vs ! nat k'"
        by auto
    qed
    have unfold: "sort_slice vs l r =
        (case sort_slice vs2 l (i - 2) of Inl e \<Rightarrow> Inl e | Inr vs3 \<Rightarrow> sort_slice vs3 i r)"
      using False l0 rlen pl
      by (subst sort_slice.simps) (simp add: pivot_def [symmetric] vs2_def)
    have pre1: "i - 2 \<le> l \<or> (0 \<le> l \<and> i - 2 < int (length vs2))"
      using l0 ir rlen len2 by simp
    have "\<exists>vs3. sort_slice vs2 l (i - 2) = Inr vs3
       \<and> length vs3 = length vs2 \<and> mset vs3 = mset vs2
       \<and> (\<forall>k. 0 \<le> k \<and> (k < l \<or> i - 2 < k) \<longrightarrow> vs3 ! nat k = vs2 ! nat k)
       \<and> (\<forall>a b. l \<le> a \<and> a \<le> b \<and> b \<le> i - 2 \<longrightarrow> vs3 ! nat a \<le> vs3 ! nat b)
       \<and> (\<forall>k. l \<le> k \<and> k \<le> i - 2 \<longrightarrow>
             (\<exists>k'. l \<le> k' \<and> k' \<le> i - 2 \<and> vs3 ! nat k = vs2 ! nat k'))"
      using False l0 rlen pl pre1
      by (intro 1(1) [of pivot "(vs1, i)" vs1 i vs2]) (simp_all add: pivot_def vs2_def)
    then obtain vs3 where s3: "sort_slice vs2 l (i - 2) = Inr vs3"
      and len3: "length vs3 = length vs2" and ms3: "mset vs3 = mset vs2"
      and out3: "\<forall>k. 0 \<le> k \<and> (k < l \<or> i - 2 < k) \<longrightarrow> vs3 ! nat k = vs2 ! nat k"
      and srt3: "\<forall>a b. l \<le> a \<and> a \<le> b \<and> b \<le> i - 2 \<longrightarrow> vs3 ! nat a \<le> vs3 ! nat b"
      and seg3: "\<forall>k. l \<le> k \<and> k \<le> i - 2 \<longrightarrow>
             (\<exists>k'. l \<le> k' \<and> k' \<le> i - 2 \<and> vs3 ! nat k = vs2 ! nat k')"
      by blast
    have pre2: "r \<le> i \<or> (0 \<le> i \<and> r < int (length vs3))"
      using l0 il rlen len2 len3 by simp
    have "\<exists>vs4. sort_slice vs3 i r = Inr vs4
       \<and> length vs4 = length vs3 \<and> mset vs4 = mset vs3
       \<and> (\<forall>k. 0 \<le> k \<and> (k < i \<or> r < k) \<longrightarrow> vs4 ! nat k = vs3 ! nat k)
       \<and> (\<forall>a b. i \<le> a \<and> a \<le> b \<and> b \<le> r \<longrightarrow> vs4 ! nat a \<le> vs4 ! nat b)
       \<and> (\<forall>k. i \<le> k \<and> k \<le> r \<longrightarrow>
             (\<exists>k'. i \<le> k' \<and> k' \<le> r \<and> vs4 ! nat k = vs3 ! nat k'))"
      using False l0 rlen pl pre2 s3
      by (intro 1(2) [of pivot "(vs1, i)" vs1 i vs2 vs3]) (simp_all add: pivot_def vs2_def)
    then obtain vs4 where s4: "sort_slice vs3 i r = Inr vs4"
      and len4: "length vs4 = length vs3" and ms4: "mset vs4 = mset vs3"
      and out4: "\<forall>k. 0 \<le> k \<and> (k < i \<or> r < k) \<longrightarrow> vs4 ! nat k = vs3 ! nat k"
      and srt4: "\<forall>a b. i \<le> a \<and> a \<le> b \<and> b \<le> r \<longrightarrow> vs4 ! nat a \<le> vs4 ! nat b"
      and seg4: "\<forall>k. i \<le> k \<and> k \<le> r \<longrightarrow>
             (\<exists>k'. i \<le> k' \<and> k' \<le> r \<and> vs4 ! nat k = vs3 ! nat k')"
      by blast
    have res: "sort_slice vs l r = Inr vs4"
      by (simp add: unfold s3 s4)
    txt \<open>The three zones of the result: below the pivot, the pivot, above the pivot.\<close>
    have zl: "\<And>k. l \<le> k \<Longrightarrow> k \<le> i - 2 \<Longrightarrow>
        vs4 ! nat k = vs3 ! nat k \<and> vs4 ! nat k < pivot
        \<and> (\<exists>k'. l \<le> k' \<and> k' \<le> i - 2 \<and> vs4 ! nat k = vs2 ! nat k')"
    proof -
      fix k assume k: "l \<le> k" "k \<le> i - 2"
      with l0 out4 have e: "vs4 ! nat k = vs3 ! nat k" by simp
      from k have "\<exists>k'. l \<le> k' \<and> k' \<le> i - 2 \<and> vs3 ! nat k = vs2 ! nat k'"
        by (intro seg3 [rule_format]) simp
      then obtain k' where k': "l \<le> k'" "k' \<le> i - 2" "vs3 ! nat k = vs2 ! nat k'" by blast
      with lo2 have "vs2 ! nat k' < pivot" by simp
      with e k' show "vs4 ! nat k = vs3 ! nat k \<and> vs4 ! nat k < pivot
        \<and> (\<exists>k'. l \<le> k' \<and> k' \<le> i - 2 \<and> vs4 ! nat k = vs2 ! nat k')" by auto
    qed
    have zm: "vs4 ! nat (i - 1) = pivot"
      using out4 out3 mid2 b(2) by simp
    have zh: "\<And>k. i \<le> k \<Longrightarrow> k \<le> r \<Longrightarrow>
        pivot \<le> vs4 ! nat k \<and> (\<exists>k'. i \<le> k' \<and> k' \<le> r \<and> vs4 ! nat k = vs2 ! nat k')"
    proof -
      fix k assume k: "i \<le> k" "k \<le> r"
      then have "\<exists>k'. i \<le> k' \<and> k' \<le> r \<and> vs4 ! nat k = vs3 ! nat k'"
        by (intro seg4 [rule_format]) simp
      then obtain k' where k': "i \<le> k'" "k' \<le> r" "vs4 ! nat k = vs3 ! nat k'" by blast
      with b out3 have "vs3 ! nat k' = vs2 ! nat k'" by simp
      moreover from k' hi2 have "pivot \<le> vs2 ! nat k'" by simp
      ultimately show "pivot \<le> vs4 ! nat k
          \<and> (\<exists>k'. i \<le> k' \<and> k' \<le> r \<and> vs4 ! nat k = vs2 ! nat k')"
        using k' by auto
    qed
    have out: "\<forall>k. 0 \<le> k \<and> (k < l \<or> r < k) \<longrightarrow> vs4 ! nat k = vs ! nat k"
      using out4 out3 out2 il ir by auto
    have srt: "\<forall>a b. l \<le> a \<and> a \<le> b \<and> b \<le> r \<longrightarrow> vs4 ! nat a \<le> vs4 ! nat b"
    proof (intro allI impI)
      fix a b assume ab: "l \<le> a \<and> a \<le> b \<and> b \<le> r"
      consider "b \<le> i - 2" | "a \<le> i - 2" "b = i - 1" | "a \<le> i - 2" "i \<le> b"
        | "a = i - 1" "b = i - 1" | "a = i - 1" "i \<le> b" | "i \<le> a"
        using ab by linarith
      then show "vs4 ! nat a \<le> vs4 ! nat b"
      proof cases
        case 1
        with ab zl [of a] zl [of b] srt3 show ?thesis by simp
      next
        case 2
        with ab zl [of a] zm show ?thesis by simp
      next
        case 3
        with ab zl [of a] zh [of b] show ?thesis by simp
      next
        case 4
        then show ?thesis by simp
      next
        case 5
        with ab zm zh [of b] show ?thesis by simp
      next
        case 6
        with ab srt4 show ?thesis by simp
      qed
    qed
    have seg: "\<forall>k. l \<le> k \<and> k \<le> r \<longrightarrow> (\<exists>k'. l \<le> k' \<and> k' \<le> r \<and> vs4 ! nat k = vs ! nat k')"
    proof (intro allI impI)
      fix k assume k: "l \<le> k \<and> k \<le> r"
      have "\<exists>m. l \<le> m \<and> m \<le> r \<and> vs4 ! nat k = vs2 ! nat m"
      proof -
        consider "k \<le> i - 2" | "k = i - 1" | "i \<le> k" by linarith
        then show ?thesis
        proof cases
          case 1
          with k zl [of k] obtain m where "l \<le> m" "m \<le> i - 2" "vs4 ! nat k = vs2 ! nat m"
            by blast
          with ir have "l \<le> m \<and> m \<le> r \<and> vs4 ! nat k = vs2 ! nat m" by simp
          then show ?thesis by blast
        next
          case 2
          with zm mid2 k have "l \<le> i - 1 \<and> i - 1 \<le> r \<and> vs4 ! nat k = vs2 ! nat (i - 1)"
            by simp
          then show ?thesis by blast
        next
          case 3
          with k zh [of k] obtain m where "i \<le> m" "m \<le> r" "vs4 ! nat k = vs2 ! nat m"
            by blast
          with il have "l \<le> m \<and> m \<le> r \<and> vs4 ! nat k = vs2 ! nat m" by simp
          then show ?thesis by blast
        qed
      qed
      then obtain m where m: "l \<le> m \<and> m \<le> r" "vs4 ! nat k = vs2 ! nat m" by blast
      from m(1) have "\<exists>k'. l \<le> k' \<and> k' \<le> r \<and> vs2 ! nat m = vs ! nat k'"
        by (rule seg2 [rule_format])
      with m(2) show "\<exists>k'. l \<le> k' \<and> k' \<le> r \<and> vs4 ! nat k = vs ! nat k'" by simp
    qed
    from res len4 len3 len2 ms4 ms3 ms2 out srt seg show ?thesis by simp
  qed
qed


lemma sort_slice_whole:
  "\<exists>ys. sort_slice xs 0 (int (length xs) - 1) = Inr ys \<and> sorted ys \<and> mset ys = mset xs"
proof -
  have "int (length xs) - 1 \<le> 0 \<or> (0 \<le> (0::int) \<and> int (length xs) - 1 < int (length xs))"
    by simp
  from sort_slice_spec [OF this] obtain ys where
    res: "sort_slice xs 0 (int (length xs) - 1) = Inr ys"
    and len: "length ys = length xs" and ms: "mset ys = mset xs"
    and srt: "\<forall>a b. 0 \<le> a \<and> a \<le> b \<and> b \<le> int (length xs) - 1 \<longrightarrow> ys ! nat a \<le> ys ! nat b"
    by blast
  have "sorted ys"
    unfolding sorted_iff_nth_mono
  proof (intro allI impI)
    fix i j assume "i \<le> j" and "j < length ys"
    with len have "0 \<le> int i \<and> int i \<le> int j \<and> int j \<le> int (length xs) - 1" by simp
    then have "ys ! nat (int i) \<le> ys ! nat (int j)" by (rule srt [rule_format])
    then show "ys ! i \<le> ys ! j" by simp
  qed
  with res ms show ?thesis by blast
qed

lemma sort_slice_sorted:
  assumes "sorted xs"
  shows "sort_slice xs 0 (int (length xs) - 1) = Inr xs"
proof -
  from sort_slice_whole [of xs] obtain ys where
    res: "sort_slice xs 0 (int (length xs) - 1) = Inr ys"
    and s: "sorted ys" and ms: "mset ys = mset xs" by blast
  from ms s have "sort xs = ys" by (rule properties_for_sort)
  moreover from assms have "sort xs = xs" by (rule sorted_sort_id)
  ultimately show ?thesis using res by simp
qed

text \<open>
  C8. For every integer slice, the quicksort with first-element pivot, run on the whole
  slice as \<open>collect\<close> does, returns without a panic; the result is in ascending order and
  is a permutation of the input (same multiset); sorting the result again, or any slice
  that is already sorted, gives the same slice back.
\<close>

theorem sort_slice_sorts:
  "\<exists>ys. sort_slice xs 0 (int (length xs) - 1) = Inr ys
        \<and> sorted ys \<and> mset ys = mset xs
        \<and> sort_slice ys 0 (int (length ys) - 1) = Inr ys
        \<and> (sorted xs \<longrightarrow> ys = xs)"
proof -
  from sort_slice_whole [of xs] obtain ys where
    res: "sort_slice xs 0 (int (length xs) - 1) = Inr ys"
    and s: "sorted ys" and ms: "mset ys = mset xs" by blast
  from s have again: "sort_slice ys 0 (int (length ys) - 1) = Inr ys"
    by (rule sort_slice_sorted)
  have "sorted xs \<longrightarrow> ys = xs"
    using sort_slice_sorted [of xs] res by auto
  with res s ms again show ?thesis by blast
qed

theorem sort_slice_sorts_witness:
  "sort_slice [3, 1, 2, 5, 4, 3, 3, 0] 0 7 = Inr [0, 1, 2, 3, 3, 3, 4, 5]
   \<and> sorted [1, 2, 3 :: int] \<and> sort_slice [1, 2, 3] 0 2 = Inr [1, 2, 3]"
proof -
  have a: "sort_slice [3, 1, 2, 5, 4, 3, 3, 0] 0 7 = Inr [0, 1, 2, 3, 3, 3, 4, 5]"
    by (simp add: sort_slice.simps part_loop.simps)
  have s: "sorted [1, 2, 3 :: int]" by simp
  from sort_slice_sorts [of "[1, 2, 3]"] obtain ys where
    "sort_slice [1, 2, 3] 0 (int (length [1, 2, 3 :: int]) - 1) = Inr ys"
    and "sorted [1, 2, 3 :: int] \<longrightarrow> ys = [1, 2, 3]" by blast
  with s have "sort_slice [1, 2, 3] 0 2 = Inr [1, 2, 3]" by simp
  with a s show ?thesis by blast
qed

text \<open>
  C9. For every integer slice and all bounds \<open>l\<close>, \<open>r\<close> inside it, the quicksort returns
  (the model is a total function, its termination proved on the width \<open>r - l\<close>, and the
  result is not a panic); when \<open>l < r\<close> the index \<open>i\<close> left by the partition loop
  satisfies \<open>l < i \<le> r + 1\<close>, so the two recursive calls, on \<open>[l, i - 2]\<close> and on
  \<open>[i, r]\<close>, work on strictly narrower ranges than \<open>[l, r]\<close>.
\<close>

theorem sort_slice_terminates:
  assumes "0 \<le> l" and "r < int (length values)"
  shows "(\<exists>ys. sort_slice values l r = Inr ys \<and> length ys = length values)
         \<and> (l < r \<longrightarrow>
              (let i = snd (part_loop (values ! nat l) r values (l + 1) (l + 1))
               in l < i \<and> i \<le> r + 1
                  \<and> (i - 2) - l < r - l \<and> r - i < r - l
                  \<and> nat ((i - 2) - l) < nat (r - l) \<and> nat (r - i) < nat (r - l)))"
proof -
  from assms have "r \<le> l \<or> (0 \<le> l \<and> r < int (length values))" by simp
  from sort_slice_spec [OF this] have ret:
    "\<exists>ys. sort_slice values l r = Inr ys \<and> length ys = length values" by blast
  have "l < r \<longrightarrow>
      (let i = snd (part_loop (values ! nat l) r values (l + 1) (l + 1))
       in l < i \<and> i \<le> r + 1
          \<and> (i - 2) - l < r - l \<and> r - i < r - l
          \<and> nat ((i - 2) - l) < nat (r - l) \<and> nat (r - i) < nat (r - l))"
  proof
    assume lr: "l < r"
    then have "l + 1 \<le> r + 1" by simp
    from part_loop_index [OF this, of "l + 1" "values ! nat l" "values"] lr
    show "let i = snd (part_loop (values ! nat l) r values (l + 1) (l + 1))
       in l < i \<and> i \<le> r + 1
          \<and> (i - 2) - l < r - l \<and> r - i < r - l
          \<and> nat ((i - 2) - l) < nat (r - l) \<and> nat (r - i) < nat (r - l)"
      by (simp add: Let_def)
  qed
  with ret show ?thesis by blast
qed

theorem sort_slice_terminates_witness:
  "(0::int) \<le> 1 \<and> (3::int) < int (length [9, 4, 7, 2, 8 :: int]) \<and> (1::int) < 3
   \<and> sort_slice [9, 4, 7, 2, 8] 1 3 = Inr [9, 2, 4, 7, 8]
   \<and> snd (part_loop 4 3 [9, 4, 7, 2, 8] 2 2) = 3
   \<and> (3::int) - 2 - 1 < 3 - 1 \<and> (3::int) - 3 < 3 - 1"
proof -
  have l: "(0::int) \<le> 1" and r: "(3::int) < int (length [9, 4, 7, 2, 8 :: int])" by simp_all
  have i: "snd (part_loop 4 3 [9, 4, 7, 2, 8] 2 2) = 3"
    by (simp add: part_loop.simps)
  have s: "sort_slice [9, 4, 7, 2, 8] 1 3 = Inr [9, 2, 4, 7, 8]"
    by (simp add: sort_slice.simps part_loop.simps)
  from sort_slice_terminates [OF l r] i
  have "(3::int) - 2 - 1 < 3 - 1 \<and> (3::int) - 3 < 3 - 1"
    by simp
  with l r i s show ?thesis by simp
qed

subsection \<open>Percentile lookup\<close>

lemma sorted_iota: "sorted (map int [0..<n])"
  unfolding sorted_iff_nth_mono
proof (intro allI impI)
  fix i j assume "i \<le> j" "j < length (map int [0..<n])"
  then show "map int [0..<n] ! i \<le> map int [0..<n] ! j" by simp
qed

text \<open>
  C2, as stated, fails at the 66th percentile: the lookup is invoked with denominator 3,
  and \<open>100 / (100 - 66)\<close> truncated is 2.
\<close>

theorem percentile_66_counterexample:
  "(66, 3) \<in> set percentiles \<and> (100::int) sdiv (100 - 66) = 2 \<and> (100::int) sdiv (100 - 66) \<noteq> 3"
  by (simp add: percentiles_def signed_divide_int_def)

text \<open>
  C2, amended. The eight lookups are invoked, in order, for the labels 50, 66, 75, 80, 90,
  95, 98, 99 with the denominators 2, 3, 4, 5, 10, 20, 50, 100. For every label other
  than 66 the denominator is \<open>100 / (100 - P)\<close> truncated; for all eight, 66 included, it
  is \<open>100 / (100 - P)\<close> rounded up.
\<close>

theorem percentile_denominators:
  "map fst percentiles = [50, 66, 75, 80, 90, 95, 98, 99]
   \<and> map snd percentiles = [2, 3, 4, 5, 10, 20, 50, 100]
   \<and> (\<forall>(P, d) \<in> set percentiles. P \<noteq> 66 \<longrightarrow> 100 sdiv (100 - P) = d)
   \<and> (\<forall>(P, d) \<in> set percentiles. (100 + (100 - P) - 1) sdiv (100 - P) = d)"
  by (simp add: percentiles_def signed_divide_int_def)

theorem percentile_denominators_witness:
  "(50, 2) \<in> set percentiles \<and> (50::int) \<noteq> 66 \<and> 100 sdiv (100 - 50) = (2::int)
   \<and> (66, 3) \<in> set percentiles \<and> (100 + (100 - 66) - 1) sdiv (100 - 66) = (3::int)"
proof -
  have m: "(50, 2) \<in> set percentiles" and m': "(66, 3) \<in> set percentiles"
    by (simp_all add: percentiles_def)
  note a = percentile_denominators [THEN conjunct2, THEN conjunct2, THEN conjunct1]
    and b = percentile_denominators [THEN conjunct2, THEN conjunct2, THEN conjunct2]
  have n: "(50::int) \<noteq> 66" by simp
  have "(50::int) \<noteq> 66 \<longrightarrow> 100 sdiv (100 - 50) = (2::int)"
    using bspec [OF a m] unfolding prod.case .
  then have x: "100 sdiv (100 - 50) = (2::int)" using n by (rule mp)
  have y: "(100 + (100 - 66) - 1) sdiv (100 - 66) = (3::int)"
    using bspec [OF b m'] unfolding prod.case .
  from m n x m' y show ?thesis by (intro conjI)
qed

lemma collect_v_sentinel:
  "s \<noteq> [] \<Longrightarrow> d \<le> 0 \<Longrightarrow> collect_v s d = Inr (real_of_int (s ! (length s - 1)) / 1000)"
  by (cases s) (simp_all add: collect_v_def slice_at_def Let_def nat_diff_distrib)

lemma collect_v_cut:
  assumes "0 < d" and "0 \<le> int (length s) * (d - 1) div d - 1"
    and "int (length s) * (d - 1) div d - 1 < int (length s)"
  shows "collect_v s d = Inr (real_of_int (s ! nat (int (length s) * (d - 1) div d - 1)) / 1000)"
proof -
  from assms(1) have "int (length s) * (d - 1) sdiv d = int (length s) * (d - 1) div d"
    by (intro sdiv_nonneg) simp_all
  with assms show ?thesis
    by (simp add: collect_v_def slice_at_def Let_def)
qed

text \<open>The product in the cut index stays in the range of a 64-bit \<open>int\<close>.\<close>

lemma cut_product_in_range:
  assumes "(P, d) \<in> set percentiles" and "length s \<le> 2 ^ 56"
  shows "0 \<le> int (length s) * (d - 1) \<and> int (length s) * (d - 1) < 2 ^ 63"
proof -
  from assms(1) have d: "0 \<le> d - 1" "d - 1 \<le> 99"
    by (auto simp: percentiles_def)
  from assms(2) have "int (length s) \<le> int (2 ^ 56)"
    by (simp only: of_nat_le_iff)
  then have l: "int (length s) \<le> 2 ^ 56" by simp
  have l0: "0 \<le> int (length s)" by simp
  from l0 d(1) have lo: "0 \<le> int (length s) * (d - 1)"
    by (rule mult_nonneg_nonneg)
  from l d(2) l0 d(1) have "int (length s) * (d - 1) \<le> 2 ^ 56 * 99"
    by (intro mult_mono) simp_all
  also have "\<dots> < (2 ^ 63 :: int)" by simp
  finally show ?thesis using lo by simp
qed

text \<open>
  C6. On the sample set \<open>[0, 1, ..., 999]\<close> (which the sort leaves as it is) the lookup
  with denominator 2 reads index 499 and returns 0.499, the lookup with denominator 100
  reads index 989 and returns 0.989, and the sentinel lookup reads index 999 and returns
  0.999 (milliseconds).
\<close>

theorem percentile_determinism:
  "sort_slice (map int [0..<1000]) 0 999 = Inr (map int [0..<1000])
   \<and> int (length (map int [0..<1000])) * (2 - 1) sdiv 2 - 1 = 499
   \<and> collect_v (map int [0..<1000]) 2 = Inr 0.499
   \<and> int (length (map int [0..<1000])) * (100 - 1) sdiv 100 - 1 = 989
   \<and> collect_v (map int [0..<1000]) 100 = Inr 0.989
   \<and> int (length (map int [0..<1000])) - 1 = 999
   \<and> collect_v (map int [0..<1000]) (- 1) = Inr 0.999"
proof -
  have "sort_slice (map int [0..<1000]) 0 (int (length (map int [0..<1000])) - 1)
          = Inr (map int [0..<1000])"
    by (rule sort_slice_sorted) (rule sorted_iota)
  then have a: "sort_slice (map int [0..<1000]) 0 999 = Inr (map int [0..<1000])" by simp
  have b: "collect_v (map int [0..<1000]) 2 = Inr 0.499"
    by (subst collect_v_cut) simp_all
  have c: "collect_v (map int [0..<1000]) 100 = Inr 0.989"
    by (subst collect_v_cut) simp_all
  have d: "collect_v (map int [0..<1000]) (- 1) = Inr 0.999"
    by (subst collect_v_sentinel) simp_all
  have e: "int (length (map int [0..<1000])) * (2 - 1) sdiv 2 - 1 = 499"
    "int (length (map int [0..<1000])) * (100 - 1) sdiv 100 - 1 = 989"
    by (simp_all add: signed_divide_int_def)
  from a b c d e show ?thesis by simp
qed

text \<open>
  C7. For every non-empty sample set, the lookup with a non-positive denominator (the
  report passes \<open>-1\<close> for the 100th percentile) returns the element at index \<open>L - 1\<close>,
  the last one, divided by 1000; the cut-index formula is not used and the read is in
  range.
\<close>

theorem percentile_100_sentinel:
  assumes "s \<noteq> []" and "denominator \<le> 0"
  shows "collect_v s denominator = Inr (real_of_int (s ! (length s - 1)) / 1000)
         \<and> collect_v s (- 1) = Inr (real_of_int (last s) / 1000)
         \<and> slice_at s (int (length s) - 1) = Inr (last s)"
proof -
  from assms have "collect_v s denominator = Inr (real_of_int (s ! (length s - 1)) / 1000)"
    by (rule collect_v_sentinel)
  moreover from assms(1) have "collect_v s (- 1) = Inr (real_of_int (last s) / 1000)"
    by (simp add: collect_v_sentinel last_conv_nth)
  moreover from assms(1) have "slice_at s (int (length s) - 1) = Inr (last s)"
    by (cases s) (simp_all add: slice_at_def last_conv_nth nat_diff_distrib)
  ultimately show ?thesis by simp
qed

theorem percentile_100_sentinel_witness:
  "[120, 140, 13270] \<noteq> ([] :: int list) \<and> (- 1 :: int) \<le> 0
   \<and> collect_v [120, 140, 13270] (- 1) = Inr 13.27"
proof -
  have a: "[120, 140, 13270] \<noteq> ([] :: int list)" and b: "(- 1 :: int) \<le> 0" by simp_all
  from percentile_100_sentinel [OF a b] show ?thesis by simp
qed

lemma cut_chain:
  fixes L :: int
  assumes "2 \<le> L"
  shows "0 \<le> L * (2 - 1) div 2 - 1"
    and "L * (2 - 1) div 2 - 1 \<le> L * (3 - 1) div 3 - 1"
    and "L * (3 - 1) div 3 - 1 \<le> L * (4 - 1) div 4 - 1"
    and "L * (4 - 1) div 4 - 1 \<le> L * (5 - 1) div 5 - 1"
    and "L * (5 - 1) div 5 - 1 \<le> L * (10 - 1) div 10 - 1"
    and "L * (10 - 1) div 10 - 1 \<le> L * (20 - 1) div 20 - 1"
    and "L * (20 - 1) div 20 - 1 \<le> L * (50 - 1) div 50 - 1"
    and "L * (50 - 1) div 50 - 1 \<le> L * (100 - 1) div 100 - 1"
    and "L * (100 - 1) div 100 - 1 \<le> L - 1"
  using assms by simp_all

lemma cut_sdiv:
  fixes L :: int
  assumes "0 \<le> L" and "0 < d"
  shows "L * (d - 1) sdiv d = L * (d - 1) div d"
  using assms by (intro sdiv_nonneg) simp_all


lemma lookup_mono:
  assumes "sorted s" and "0 \<le> a" and "a \<le> b" and "b < int (length s)"
  shows "real_of_int (s ! nat a) / 1000 \<le> real_of_int (s ! nat b) / 1000"
proof -
  from assms have "nat a \<le> nat b" and "nat b < length s" by simp_all
  with assms(1) have "s ! nat a \<le> s ! nat b" by (rule sorted_nth_mono)
  then show ?thesis by simp
qed

text \<open>
  C10. For every ascending sample set with at least two elements, each of the eight cut
  indexes \<open>L * (d - 1) / d - 1\<close> lies in \<open>[0, L - 1]\<close>, and the nine lookups of the
  report, in the order 50, 66, 75, 80, 90, 95, 98, 99, 100, all return a value, the values
  forming a non-decreasing sequence.
\<close>

theorem percentiles_monotone:
  assumes "sorted s" and "2 \<le> length s"
  shows "(\<forall>(P, d) \<in> set percentiles.
            0 \<le> int (length s) * (d - 1) sdiv d - 1
            \<and> int (length s) * (d - 1) sdiv d - 1 \<le> int (length s) - 1)
         \<and> (\<exists>vs. map (\<lambda>(P, d). collect_v s d) (percentiles @ [(100, - 1)]) = map Inr vs
                  \<and> sorted vs)"
proof -
  define L where "L = int (length s)"
  from assms(2) have L2: "2 \<le> L" and L0: "0 \<le> L" by (simp_all add: L_def)
  define k where "k d = L * (d - 1) div d - 1" for d
  have kb: "0 \<le> k 2" "k 2 \<le> k 3" "k 3 \<le> k 4" "k 4 \<le> k 5" "k 5 \<le> k 10"
    "k 10 \<le> k 20" "k 20 \<le> k 50" "k 50 \<le> k 100" "k 100 \<le> L - 1"
    unfolding k_def by (rule cut_chain [OF L2])+
  have sd: "L * (d - 1) sdiv d - 1 = k d" if "0 < d" for d
    unfolding k_def using L0 that by (simp only: cut_sdiv)
  have dset: "d \<in> {2, 3, 4, 5, 10, 20, 50, 100}" if "(P, d) \<in> set percentiles" for P d
    using that by (auto simp: percentiles_def)
  have kall: "0 < d \<and> 0 \<le> k d \<and> k d < L" if "d \<in> {2, 3, 4, 5, 10, 20, 50, 100}" for d
    using that kb by auto
  have inb: "\<forall>(P, d) \<in> set percentiles.
      0 \<le> int (length s) * (d - 1) sdiv d - 1
      \<and> int (length s) * (d - 1) sdiv d - 1 \<le> int (length s) - 1"
  proof (intro ballI, clarify)
    fix P d assume "(P, d) \<in> set percentiles"
    then have "0 < d \<and> 0 \<le> k d \<and> k d < L" by (intro kall dset)
    then have "0 \<le> L * (d - 1) sdiv d - 1 \<and> L * (d - 1) sdiv d - 1 \<le> L - 1"
      by (simp add: sd)
    then show "0 \<le> int (length s) * (d - 1) sdiv d - 1
      \<and> int (length s) * (d - 1) sdiv d - 1 \<le> int (length s) - 1"
      unfolding L_def by blast
  qed
  define x where "x d = real_of_int (s ! nat (k d)) / 1000" for d
  have cv: "collect_v s d = Inr (x d)" if "d \<in> {2, 3, 4, 5, 10, 20, 50, 100}" for d
  proof -
    from kall [OF that] have "0 < d" "0 \<le> k d" "k d < L" by simp_all
    then show ?thesis
      unfolding x_def k_def L_def by (rule collect_v_cut)
  qed
  from assms(2) have ne: "s \<noteq> []" by auto
  define top where "top = real_of_int (s ! nat (L - 1)) / 1000"
  from L2 have "nat (L - 1) = length s - 1" by (simp add: L_def nat_diff_distrib)
  then have ct: "collect_v s (- 1) = Inr top"
    using collect_v_sentinel [OF ne, of "- 1"] by (simp add: top_def)
  have mono: "x d \<le> x d'" if "0 \<le> k d" "k d \<le> k d'" "k d' < L" for d d'
    unfolding x_def using assms(1) that(1,2) that(3) [unfolded L_def] by (rule lookup_mono)
  have "L - 1 < int (length s)" by (simp add: L_def)
  with assms(1) kb have mtop: "x 100 \<le> top"
    unfolding x_def top_def by (intro lookup_mono) simp_all
  let ?vs = "[x 2, x 3, x 4, x 5, x 10, x 20, x 50, x 100, top]"
  have eq: "map (\<lambda>(P, d). collect_v s d) (percentiles @ [(100, - 1)]) = map Inr ?vs"
    by (simp add: percentiles_def ct cv)
  have "x 2 \<le> x 3" "x 3 \<le> x 4" "x 4 \<le> x 5" "x 5 \<le> x 10" "x 10 \<le> x 20"
    "x 20 \<le> x 50" "x 50 \<le> x 100"
    using kb by (auto intro!: mono)
  with mtop have "sorted ?vs" by simp
  with eq inb show ?thesis by blast
qed

theorem percentiles_monotone_witness:
  "sorted [10, 20 :: int] \<and> 2 \<le> length [10, 20 :: int]
   \<and> map (\<lambda>(P, d). collect_v [10, 20] d) (percentiles @ [(100, - 1)])
       = map Inr [0.01, 0.01, 0.01, 0.01, 0.01, 0.01, 0.01, 0.01, 0.02]"
proof -
  have a: "sorted [10, 20 :: int]" and b: "2 \<le> length [10, 20 :: int]" by simp_all
  from percentiles_monotone [OF a b] obtain vs where
    "map (\<lambda>(P, d). collect_v [10, 20] d) (percentiles @ [(100, - 1)]) = map Inr vs"
    by blast
  moreover have "map (\<lambda>(P, d). collect_v [10, 20] d) (percentiles @ [(100, - 1)])
       = map Inr [0.01, 0.01, 0.01, 0.01, 0.01, 0.01, 0.01, 0.01, 0.02]"
    by (simp add: percentiles_def collect_v_def slice_at_def signed_divide_int_def)
  ultimately show ?thesis using a b by simp
qed

subsection \<open>Report on runs with fewer than two samples\<close>

lemma collect_empty:
  "collect addr c r dn [] =
     ([Server_Address addr, Blank, Concurrency_level c, Time_taken dn, Complete_requests 0,
       Failed_requests r, Request_per_second 0 dn, Blank, Heading],
      Some Index_out_of_range)"
  by (simp add: collect_def sort_slice.simps percentiles_def send_def collect_v_def slice_at_def)

lemma collect_single:
  "collect addr c r dn [x] =
     ([Server_Address addr, Blank, Concurrency_level c, Time_taken dn, Complete_requests 1,
       Failed_requests (r - 1), Request_per_second 1 dn, Blank, Heading],
      Some Index_out_of_range)"
  by (simp add: collect_def sort_slice.simps percentiles_def send_def collect_v_def slice_at_def
      signed_divide_int_def)

lemma process_loop_first_fails:
  "fn p = (Some e, p') \<Longrightarrow> process_loop fn el cnt 0 p = []"
  by (subst process_loop.simps) simp

lemma run_workers_all_fail:
  assumes "\<forall>gid. \<exists>p e p'. conn gid = Some p \<and> fn p = (Some e, p')"
  shows "run_workers fn el conn ws = Inr []"
proof (induction ws)
  case Nil
  show ?case by simp
next
  case (Cons w ws)
  obtain gid cnt where w: "w = (gid, cnt)" by (cases w)
  from assms obtain p e p' where "conn gid = Some p" and "fn p = (Some e, p')" by blast
  then have "process fn (el gid) (conn gid) gid cnt = Inr []"
    by (simp add: process_def process_loop_first_fails)
  with Cons w show ?case by simp
qed

text \<open>
  C3. The code departs from the claim. When every worker's first call fails, no sample is
  collected (the completed count is 0) and the report sends its first nine lines, among
  them \<open>Failed requests: R\<close>; the first percentile lookup then reads index \<open>-1\<close> of
  the empty slice and the run ends in an index-out-of-range panic, without the ten
  percentile lines.
\<close>

theorem report_all_failed:
  assumes "0 < R" and "0 < C"
    and "\<forall>gid. \<exists>p e p'. conn gid = Some p \<and> fn p = (Some e, p')"
  shows "main addr R C fn el conn dn =
     ([Server_Address addr, Blank, Concurrency_level C, Time_taken dn, Complete_requests 0,
       Failed_requests R, Request_per_second 0 dn, Blank, Heading],
      Some Index_out_of_range)"
proof -
  from assms(1,2) obtain ws where "dispatch R C = Inr ws"
    by (auto simp: dispatch_def Let_def)
  moreover from assms(3) have "run_workers fn el conn ws = Inr []"
    by (rule run_workers_all_fail)
  ultimately show ?thesis
    by (simp add: main_def collect_empty)
qed

lemma call_ping_eof:
  "call ''ping'' [] eof_on_read () = (Some (Proto_error ''EOF''), ())"
  by (simp add: call_def writeMessageBody_def eof_on_read_def)

theorem report_all_failed_witness:
  "(0::int) < 3 \<and> (0::int) < 2
   \<and> call ''ping'' [] eof_on_read () = (Some (Proto_error ''EOF''), ())
   \<and> main '':6000'' 3 2 (call ''ping'' [] eof_on_read) (\<lambda>gid i. 120000) (\<lambda>gid. Some ()) 26000000 =
     ([Server_Address '':6000'', Blank, Concurrency_level 2, Time_taken 26000000,
       Complete_requests 0, Failed_requests 3, Request_per_second 0 26000000, Blank, Heading],
      Some Index_out_of_range)"
proof -
  have r: "(0::int) < 3" and c: "(0::int) < 2" by simp_all
  have f: "\<forall>gid::int. \<exists>p e p'. (\<lambda>gid. Some ()) gid = Some p
      \<and> call ''ping'' [] eof_on_read p = (Some e, p')"
    using call_ping_eof by auto
  have "main '':6000'' 3 2 (call ''ping'' [] eof_on_read) (\<lambda>gid i. 120000) (\<lambda>gid. Some ()) 26000000 =
     ([Server_Address '':6000'', Blank, Concurrency_level 2, Time_taken 26000000,
       Complete_requests 0, Failed_requests 3, Request_per_second 0 26000000, Blank, Heading],
      Some Index_out_of_range)"
    using r c f by (rule report_all_failed)
  with call_ping_eof r c show ?thesis by blast
qed

lemma call_ping_ok: "call ''ping'' [] accepting () = (None, ())"
  by (simp add: call_def writeMessageBody_def accepting_def)

text \<open>
  C4. The code departs from the claim. With \<open>R = 1\<close>, \<open>C = 1\<close> and a successful call,
  one worker is launched with one request, one sample is collected, and the lookup for
  the 50th percentile reads index \<open>1 * 1 / 2 - 1 = -1\<close>: the run ends in an
  index-out-of-range panic after the first nine report lines.
\<close>

theorem report_single_sample:
  assumes "conn 0 = Some p" and "fn p = (None, p')"
  shows "dispatch 1 1 = Inr [(0, 1)]
     \<and> run_workers fn el conn [(0, 1)] = Inr [el 0 0 sdiv 1000]
     \<and> collect_v [el 0 0 sdiv 1000] 2 = Inl Index_out_of_range
     \<and> main addr 1 1 fn el conn dn =
         ([Server_Address addr, Blank, Concurrency_level 1, Time_taken dn, Complete_requests 1,
           Failed_requests 0, Request_per_second 1 dn, Blank, Heading],
          Some Index_out_of_range)"
proof -
  have d: "dispatch 1 1 = Inr [(0, 1)]"
    by (simp add: dispatch_def spawn.simps signed_divide_int_def signed_modulo_int_def)
  from assms(2) have "process_loop fn (el 0) 1 0 p = [el 0 0 sdiv 1000]"
    by (simp add: process_loop.simps)
  with assms(1) have w: "run_workers fn el conn [(0, 1)] = Inr [el 0 0 sdiv 1000]"
    by (simp add: process_def)
  have v: "collect_v [el 0 0 sdiv 1000] 2 = Inl Index_out_of_range"
    by (simp add: collect_v_def slice_at_def signed_divide_int_def)
  from d w v show ?thesis
    by (simp add: main_def collect_single)
qed

theorem report_single_sample_witness:
  "call ''ping'' [] accepting () = (None, ())
   \<and> main '':6000'' 1 1 (call ''ping'' [] accepting) (\<lambda>gid i. 1234567) (\<lambda>gid. Some ()) 2000000 =
     ([Server_Address '':6000'', Blank, Concurrency_level 1, Time_taken 2000000,
       Complete_requests 1, Failed_requests 0, Request_per_second 1 2000000, Blank, Heading],
      Some Index_out_of_range)"
proof -
  have a: "(\<lambda>gid::int. Some ()) 0 = Some ()" by simp
  have "main '':6000'' 1 1 (call ''ping'' [] accepting) (\<lambda>gid i. 1234567) (\<lambda>gid. Some ()) 2000000 =
     ([Server_Address '':6000'', Blank, Concurrency_level 1, Time_taken 2000000,
       Complete_requests 1, Failed_requests 0, Request_per_second 1 2000000, Blank, Heading],
      Some Index_out_of_range)"
    using report_single_sample
      [where conn = "\<lambda>gid. Some ()" and fn = "call ''ping'' [] accepting" and p = "()"
         and p' = "()", OF a call_ping_ok]
    by blast
  with call_ping_ok show ?thesis by blast
qed


text \<open>With two samples the report is complete: all eighteen lines are sent.\<close>

lemma collect_two_samples:
  "collect '':6000'' 1 2 5000000 [20, 10] =
     ([Server_Address '':6000'', Blank, Concurrency_level 1, Time_taken 5000000,
       Complete_requests 2, Failed_requests 0, Request_per_second 2 5000000, Blank, Heading,
       Percent 50 0.01, Percent 66 0.01, Percent 75 0.01, Percent 80 0.01, Percent 90 0.01,
       Percent 95 0.01, Percent 98 0.01, Percent 99 0.01, Longest 100 0.02],
      None)"
proof -
  have "sort_slice [20, 10] 0 1 = Inr [10, 20]"
    by (simp add: sort_slice.simps part_loop.simps)
  then show ?thesis
    by (simp add: collect_def percentiles_def send_def collect_v_def slice_at_def
        signed_divide_int_def)
qed

subsection \<open>Case executor\<close>

lemma steps_Cons_None:
  "steps (a # as) s = (None, s') \<longleftrightarrow> (\<exists>s1. a s = (None, s1) \<and> steps as s1 = (None, s'))"
  by (cases "a s") (auto split: option.splits)

lemma write_args_prefix:
  "list_all supported pre \<Longrightarrow> steps (map proto (field_ops i pre)) s = (None, s') \<Longrightarrow>
   write_args proto i (pre @ rest) s = write_args proto (i + length pre) rest s'"
proof (induction pre arbitrary: i s)
  case Nil
  then show ?case by simp
next
  case (Cons a pre)
  from Cons.prems(1) have sup: "supported a" and rest: "list_all supported pre" by simp_all
  from sup Cons.prems(2) obtain s2 where
    wf: "write_field proto a (of_nat (i + 1)) s = (None, s2)"
    and st: "steps (map proto (field_ops (i + 1) pre)) s2 = (None, s')"
    by (cases a) (auto simp: steps_Cons_None simp del: steps.simps)
  from Cons.IH [OF rest st] wf show ?case by simp
qed

lemma logged_steps:
  "steps (map proto ops) s = (None, s') \<Longrightarrow>
   steps (map (logged proto) ops) (s, tr) = (None, (s', tr @ ops))"
proof (induction ops arbitrary: s tr)
  case Nil
  then show ?case by simp
next
  case (Cons p ops)
  from Cons.prems obtain s1 where p: "proto p s = (None, s1)"
    and st: "steps (map proto ops) s1 = (None, s')"
    by (auto simp: steps_Cons_None simp del: steps.simps)
  from Cons.IH [OF st, of "tr @ [p]"] p show ?case
    by (simp add: logged_def)
qed

lemma call_unsupported_state:
  assumes "list_all supported pre"
    and "steps (map proto (WriteMessageBegin name T_CALL 0 # WriteStructBegin ''whatever''
                             # field_ops 0 pre)) s = (None, s')"
  shows "call name (pre @ Arg_other t # post) proto s = (Some Unsupport_type, s')"
proof -
  from assms(2) obtain s1 s2 where
    a: "proto (WriteMessageBegin name T_CALL 0) s = (None, s1)"
    and b: "proto (WriteStructBegin ''whatever'') s1 = (None, s2)"
    and c: "steps (map proto (field_ops 0 pre)) s2 = (None, s')"
    by (auto simp: steps_Cons_None simp del: steps.simps)
  from write_args_prefix [OF assms(1) c, of "Arg_other t # post"]
  have "write_args proto 0 (pre @ Arg_other t # post) s2 = (Some Unsupport_type, s')"
    by simp
  with b have "writeMessageBody (pre @ Arg_other t # post) proto s1 = (Some Unsupport_type, s')"
    by (simp add: writeMessageBody_def)
  with a show ?thesis by (simp add: call_def)
qed

text \<open>
  C5, as stated, fails: for the single argument of kind \<open>float64\<close>, on a protocol whose
  primitives succeed, the call fails with the unsupported-type error only after
  \<open>WriteMessageBegin\<close> and \<open>WriteStructBegin\<close> have been invoked.
\<close>

theorem call_unsupported_counterexample:
  "call ''ping'' [Arg_other ''float64''] (logged accepting) ((), []) =
     (Some Unsupport_type, ((), [WriteMessageBegin ''ping'' T_CALL 0, WriteStructBegin ''whatever'']))
   \<and> [WriteMessageBegin ''ping'' T_CALL 0, WriteStructBegin ''whatever''] \<noteq> []"
  by (simp add: call_def writeMessageBody_def logged_def accepting_def)

text \<open>
  C5, amended. Let an argument of a kind other than the four supported ones be preceded
  by supported arguments only. If \<open>WriteMessageBegin\<close>, \<open>WriteStructBegin\<close> and the
  field writes of the preceding arguments succeed, the call fails with the
  unsupported-type error; exactly these primitives have been invoked before the error,
  and none after it (no field stop, no flush, no read).
\<close>

theorem call_unsupported:
  assumes "list_all supported pre"
    and "steps (map proto (WriteMessageBegin name T_CALL 0 # WriteStructBegin ''whatever''
                             # field_ops 0 pre)) s = (None, s')"
  shows "call name (pre @ Arg_other t # post) proto s = (Some Unsupport_type, s')
       \<and> call name (pre @ Arg_other t # post) (logged proto) (s, []) =
           (Some Unsupport_type,
            (s', WriteMessageBegin name T_CALL 0 # WriteStructBegin ''whatever'' # field_ops 0 pre))"
proof -
  from assms have "call name (pre @ Arg_other t # post) proto s = (Some Unsupport_type, s')"
    by (rule call_unsupported_state)
  moreover from logged_steps [OF assms(2), of "[]"]
  have "steps (map (logged proto) (WriteMessageBegin name T_CALL 0 # WriteStructBegin ''whatever''
                             # field_ops 0 pre)) (s, []) =
          (None, (s', WriteMessageBegin name T_CALL 0 # WriteStructBegin ''whatever''
                        # field_ops 0 pre))"
    by simp
  with assms(1) have "call name (pre @ Arg_other t # post) (logged proto) (s, []) =
           (Some Unsupport_type,
            (s', WriteMessageBegin name T_CALL 0 # WriteStructBegin ''whatever'' # field_ops 0 pre))"
    by (rule call_unsupported_state)
  ultimately show ?thesis by simp
qed

theorem call_unsupported_witness:
  "list_all supported [Arg_int16 7]
   \<and> steps (map accepting (WriteMessageBegin ''ping'' T_CALL 0 # WriteStructBegin ''whatever''
                             # field_ops 0 [Arg_int16 7])) () = (None, ())
   \<and> call ''ping'' [Arg_int16 7, Arg_other ''float64'', Arg_string ''x''] (logged accepting) ((), []) =
       (Some Unsupport_type,
        ((), [WriteMessageBegin ''ping'' T_CALL 0, WriteStructBegin ''whatever'',
              WriteFieldBegin ''i16'' T_I16 1, WriteI16 7]))"
proof -
  have a: "list_all supported [Arg_int16 7]" by simp
  have b: "steps (map accepting (WriteMessageBegin ''ping'' T_CALL 0 # WriteStructBegin ''whatever''
                             # field_ops 0 [Arg_int16 7])) () = (None, ())"
    by (simp add: accepting_def)
  from call_unsupported [OF a b, of "''float64''" "[Arg_string ''x'']"]
  have "call ''ping'' ([Arg_int16 7] @ Arg_other ''float64'' # [Arg_string ''x''])
          (logged accepting) ((), []) =
       (Some Unsupport_type,
        ((), WriteMessageBegin ''ping'' T_CALL 0 # WriteStructBegin ''whatever''
               # field_ops 0 [Arg_int16 7]))"
    by (rule conjunct2)
  then have "call ''ping'' [Arg_int16 7, Arg_other ''float64'', Arg_string ''x'']
          (logged accepting) ((), []) =
       (Some Unsupport_type,
        ((), [WriteMessageBegin ''ping'' T_CALL 0, WriteStructBegin ''whatever'',
              WriteFieldBegin ''i16'' T_I16 1, WriteI16 7]))"
    by simp
  with a b show ?thesis by blast
qed

end
